theory Spec2Isabelle
  imports Complex_Main
begin

section \<open>Python and NumPy values\<close>

text \<open>
  The exceptions the modelled code can raise by itself: NumPy refuses a negative
  dimension and a reshape that changes the number of elements with ValueError, an index
  outside an axis with IndexError, and Python's true division refuses a zero divisor
  with ZeroDivisionError.
\<close>

datatype error = ValueError | ZeroDivisionError | IndexError

text \<open>
  A float64 is a finite number, one of the two infinities, or NaN. The special values
  follow IEEE 754, which is what the comparison in the sampler's accept test meets when
  a log-density is infinite. In the sampler finite values are kept exact (rounding and
  overflow of finite arithmetic are not part of its model); the estimators of pi further
  down carry the rounding of every operation.
\<close>

datatype fval = Fin real | PInf | NInf | NaN

fun fsub :: "fval \<Rightarrow> fval \<Rightarrow> fval" where
  "fsub NaN _ = NaN"
| "fsub _ NaN = NaN"
| "fsub (Fin a) (Fin b) = Fin (a - b)"
| "fsub (Fin a) PInf = NInf"
| "fsub (Fin a) NInf = PInf"
| "fsub PInf PInf = NaN"
| "fsub PInf _ = PInf"
| "fsub NInf NInf = NaN"
| "fsub NInf _ = NInf"

text \<open>The comparison \<open><\<close> on floats: every comparison with NaN is false.\<close>

fun fless :: "fval \<Rightarrow> fval \<Rightarrow> bool" where
  "fless NaN _ = False"
| "fless _ NaN = False"
| "fless (Fin a) (Fin b) = (a < b)"
| "fless (Fin a) PInf = True"
| "fless (Fin a) NInf = False"
| "fless PInf _ = False"
| "fless NInf NInf = False"
| "fless NInf _ = True"

text \<open>
  \<open>np.log\<close> of a finite float: minus infinity at zero and NaN below it (NumPy warns
  and goes on, it does not raise).
\<close>

definition np_log :: "real \<Rightarrow> fval" where
  "np_log u = (if u < 0 then NaN else if u = 0 then NInf else Fin (ln u))"

text \<open>Python's \<open>a / b\<close> on two ints.\<close>

definition py_true_div :: "int \<Rightarrow> int \<Rightarrow> error + real" where
  "py_true_div a b = (if b = 0 then Inl ZeroDivisionError else Inr (real_of_int a / real_of_int b))"

text \<open>\<open>range(n)\<close>: empty when \<open>n\<close> is not positive.\<close>

definition py_range :: "int \<Rightarrow> nat list" where
  "py_range n = [0 ..< nat n]"

text \<open>
  A \<open>for\<close> loop over a list of indices whose body works on the local variables and
  may raise: the first exception ends the loop.
\<close>

fun for_loop :: "(nat \<Rightarrow> 'v \<Rightarrow> error + 'v) \<Rightarrow> nat list \<Rightarrow> 'v \<Rightarrow> error + 'v" where
  "for_loop body [] v = Inr v"
| "for_loop body (i # is) v =
     (case body i v of Inl e \<Rightarrow> Inl e | Inr v' \<Rightarrow> for_loop body is v')"

section \<open>Arrays\<close>

text \<open>
  A one-dimensional array is the list of its elements; an array of any shape is
  represented, where only its elements in row-major order matter, by that list too. A
  two-dimensional array is the list of its rows.
\<close>

definition np_zeros :: "int \<Rightarrow> error + ('a::zero) list" where
  "np_zeros k = (if k < 0 then Inl ValueError else Inr (replicate (nat k) 0))"

fun rows_of :: "nat \<Rightarrow> nat \<Rightarrow> 'a list \<Rightarrow> 'a list list" where
  "rows_of 0 c xs = []"
| "rows_of (Suc r) c xs = take c xs # rows_of r c (drop c xs)"

text \<open>\<open>a.reshape(r, c)\<close> and \<open>a.reshape(k,)\<close>: the number of elements must not change.\<close>

definition reshape2 :: "'a list \<Rightarrow> nat \<Rightarrow> nat \<Rightarrow> error + 'a list list" where
  "reshape2 a r c = (if length a = r * c then Inr (rows_of r c a) else Inl ValueError)"

definition reshape1 :: "'a list \<Rightarrow> nat \<Rightarrow> error + 'a list" where
  "reshape1 a k = (if length a = k then Inr a else Inl ValueError)"

text \<open>
  \<open>chain[:, i] = col\<close> for a column \<open>col\<close> with one element per row of \<open>chain\<close>: the
  index must lie inside the second axis.
\<close>

definition set_column :: "'a list list \<Rightarrow> nat \<Rightarrow> 'a list \<Rightarrow> error + 'a list list" where
  "set_column ch i col =
     (if \<forall>row \<in> set ch. i < length row
      then Inr (map2 (\<lambda>row e. row[i := e]) ch col)
      else Inl IndexError)"

text \<open>Reading a two-dimensional array: \<open>ch[:, i]\<close>, and the list of all \<open>n\<close> columns.\<close>

definition column :: "'a list list \<Rightarrow> nat \<Rightarrow> 'a list" where
  "column ch i = map (\<lambda>row. row ! i) ch"

definition columns :: "'a list list \<Rightarrow> nat \<Rightarrow> 'a list list" where
  "columns ch n = map (column ch) [0 ..< n]"

section \<open>The Metropolis-Hastings sampler\<close>

text \<open>
  The random source \<open>rng\<close> is an object with hidden state: it is modelled by its state
  \<open>'s\<close> together with its method \<open>uniform :: 's \<Rightarrow> real \<times> 's\<close>, which returns a variate and
  the next state. The candidate generator reads the same source (in the notebook it
  closes over \<open>rng\<close>), so it takes the state and returns the next one as well. The
  log-density is a pure function to a float. Both callbacks are taken to return
  normally.

  The local variables of \<open>metropolis_hastings\<close>:
\<close>

record ('a, 's) mh_vars =
  var_x :: "'a list"
  var_chain :: "'a list list"
  var_accepted :: int
  var_rng :: 's

text \<open>
  One pass through the body of the loop. Python evaluates the left operand of \<open><\<close>
  first, so the variate is drawn after the candidate and before the log-densities are
  computed.
\<close>

definition loop_body ::
  "('s \<Rightarrow> real \<times> 's) \<Rightarrow> ('a list \<Rightarrow> fval) \<Rightarrow> ('a list \<Rightarrow> 's \<Rightarrow> 'a list \<times> 's) \<Rightarrow>
   nat \<Rightarrow> ('a, 's) mh_vars \<Rightarrow> error + ('a, 's) mh_vars" where
  "loop_body uniform logtarget candidate_generating_density i v =
     (let (candidate, s1) = candidate_generating_density (var_x v) (var_rng v);
          (u, s2) = uniform s1;
          v1 = v\<lparr>var_rng := s2\<rparr>;
          v2 = (if fless (np_log u) (fsub (logtarget candidate) (logtarget (var_x v1)))
                then v1\<lparr>var_x := candidate, var_accepted := var_accepted v1 + 1\<rparr>
                else v1)
      in case reshape1 (var_x v2) 2 of
           Inl e \<Rightarrow> Inl e
         | Inr col \<Rightarrow>
             (case set_column (var_chain v2) i col of
                Inl e \<Rightarrow> Inl e
              | Inr ch \<Rightarrow> Inr (v2\<lparr>var_chain := ch\<rparr>)))"

text \<open>
  The function up to the end of its loop: the value of the local variables there, or the
  exception raised on the way.
\<close>

definition mh_locals ::
  "('s \<Rightarrow> real \<times> 's) \<Rightarrow> 's \<Rightarrow> ('a::zero) list \<Rightarrow> int \<Rightarrow> ('a list \<Rightarrow> fval) \<Rightarrow>
   ('a list \<Rightarrow> 's \<Rightarrow> 'a list \<times> 's) \<Rightarrow> error + ('a, 's) mh_vars" where
  "mh_locals uniform rng chain_start n logtarget candidate_generating_density =
     (case np_zeros (2 * n) of
        Inl e \<Rightarrow> Inl e
      | Inr z \<Rightarrow>
          (case reshape2 z 2 (nat n) of
             Inl e \<Rightarrow> Inl e
           | Inr chain \<Rightarrow>
               for_loop (loop_body uniform logtarget candidate_generating_density) (py_range n)
                 \<lparr>var_x = chain_start, var_chain = chain, var_accepted = 0, var_rng = rng\<rparr>))"

text \<open>
  What a call leaves behind: the value returned, the acceptance percentage handed to
  \<open>print\<close> (before it is formatted to one decimal), and the state of the random source.
\<close>

record ('a, 's) mh_outcome =
  returned :: "'a list list"
  printed :: real
  rng_final :: 's

definition metropolis_hastings ::
  "('s \<Rightarrow> real \<times> 's) \<Rightarrow> 's \<Rightarrow> ('a::zero) list \<Rightarrow> int \<Rightarrow> ('a list \<Rightarrow> fval) \<Rightarrow>
   ('a list \<Rightarrow> 's \<Rightarrow> 'a list \<times> 's) \<Rightarrow> error + ('a, 's) mh_outcome" where
  "metropolis_hastings uniform rng chain_start n logtarget candidate_generating_density =
     (case mh_locals uniform rng chain_start n logtarget candidate_generating_density of
        Inl e \<Rightarrow> Inl e
      | Inr v \<Rightarrow>
          (case py_true_div (var_accepted v) n of
             Inl e \<Rightarrow> Inl e
           | Inr rate \<Rightarrow>
               Inr \<lparr>returned = var_chain v, printed = rate * 100, rng_final = var_rng v\<rparr>))"

section \<open>The two estimators of pi\<close>

text \<open>
  Here rounding decides results: a point just inside the circle can have a float64 sum
  of squares of exactly 1. Every float64 operation of the two cells returns the exact
  result rounded, so the cells take the rounding function \<open>rnd\<close> as a parameter; the
  theorems hold for every such function, and \<open>rnd64\<close> below is the one of float64
  (round to nearest, ties to even, 53 bits, gradual underflow; overflow cannot occur in
  the cells, whose values stay below 4, and is not represented).
\<close>

definition round_half_even :: "real \<Rightarrow> int" where
  "round_half_even y =
     (let f = \<lfloor>y\<rfloor>; d = y - of_int f
      in if d < 1 / 2 then f else if 1 / 2 < d then f + 1 else if even f then f else f + 1)"

definition rnd64 :: "real \<Rightarrow> real" where
  "rnd64 x =
     (if x = 0 then 0
      else let e = max \<lfloor>log 2 \<bar>x\<bar>\<rfloor> (- 1022); ulp = 2 powr of_int (e - 52)
           in of_int (round_half_even (x / ulp)) * ulp)"

text \<open>The product of two floats.\<close>

fun fmul :: "(real \<Rightarrow> real) \<Rightarrow> fval \<Rightarrow> fval \<Rightarrow> fval" where
  "fmul rnd NaN _ = NaN"
| "fmul rnd _ NaN = NaN"
| "fmul rnd (Fin a) (Fin b) = Fin (rnd (a * b))"
| "fmul rnd (Fin a) PInf = (if a = 0 then NaN else if 0 < a then PInf else NInf)"
| "fmul rnd (Fin a) NInf = (if a = 0 then NaN else if 0 < a then NInf else PInf)"
| "fmul rnd PInf (Fin b) = (if b = 0 then NaN else if 0 < b then PInf else NInf)"
| "fmul rnd NInf (Fin b) = (if b = 0 then NaN else if 0 < b then NInf else PInf)"
| "fmul rnd PInf PInf = PInf"
| "fmul rnd PInf NInf = NInf"
| "fmul rnd NInf PInf = NInf"
| "fmul rnd NInf NInf = PInf"

text \<open>
  Python's \<open>a / b\<close> on two ints is the exact quotient rounded once. NumPy's \<open>a / b\<close>
  with a NumPy integer \<open>a\<close> converts both operands to float64 and divides those; a zero
  divisor gives NaN or an infinity (with a warning), not an exception.
\<close>

definition py_true_div_rnd :: "(real \<Rightarrow> real) \<Rightarrow> int \<Rightarrow> int \<Rightarrow> error + real" where
  "py_true_div_rnd rnd a b =
     (if b = 0 then Inl ZeroDivisionError else Inr (rnd (real_of_int a / real_of_int b)))"

definition np_true_divide :: "(real \<Rightarrow> real) \<Rightarrow> int \<Rightarrow> int \<Rightarrow> fval" where
  "np_true_divide rnd a b =
     (if b = 0 then (if a = 0 then NaN else if 0 < a then PInf else NInf)
      else Fin (rnd (rnd (real_of_int a) / rnd (real_of_int b))))"

text \<open>\<open>rng.uniform(low=0, high=1, size=n)\<close>: \<open>n\<close> variates in the order they are drawn.\<close>

fun draw :: "('s \<Rightarrow> real \<times> 's) \<Rightarrow> nat \<Rightarrow> 's \<Rightarrow> real list \<times> 's" where
  "draw uniform 0 s = ([], s)"
| "draw uniform (Suc k) s =
     (let (u, s1) = uniform s; (us, s2) = draw uniform k s1 in (u # us, s2))"

definition uniform_size :: "('s \<Rightarrow> real \<times> 's) \<Rightarrow> 's \<Rightarrow> int \<Rightarrow> error + (real list \<times> 's)" where
  "uniform_size uniform s n = (if n < 0 then Inl ValueError else Inr (draw uniform (nat n) s))"

text \<open>Elementwise operations on arrays of one shape, and the sum of a boolean array.\<close>

definition np_mul :: "(real \<Rightarrow> real) \<Rightarrow> real list \<Rightarrow> real list \<Rightarrow> real list" where
  "np_mul rnd a b = map2 (\<lambda>p q. rnd (p * q)) a b"

definition np_add :: "(real \<Rightarrow> real) \<Rightarrow> real list \<Rightarrow> real list \<Rightarrow> real list" where
  "np_add rnd a b = map2 (\<lambda>p q. rnd (p + q)) a b"

definition np_less :: "real list \<Rightarrow> real \<Rightarrow> bool list" where
  "np_less a c = map (\<lambda>e. e < c) a"

definition np_sum :: "bool list \<Rightarrow> int" where
  "np_sum bs = (\<Sum>b\<leftarrow>bs. if b then 1 else 0)"

text \<open>The vectorized cell: all of \<open>x\<close> is drawn first, then all of \<open>y\<close>.\<close>

definition pi_estimate ::
  "(real \<Rightarrow> real) \<Rightarrow> ('s \<Rightarrow> real \<times> 's) \<Rightarrow> 's \<Rightarrow> int \<Rightarrow> error + fval" where
  "pi_estimate rnd uniform rng n =
     (case uniform_size uniform rng n of
        Inl e \<Rightarrow> Inl e
      | Inr (x, s1) \<Rightarrow>
          (case uniform_size uniform s1 n of
             Inl e \<Rightarrow> Inl e
           | Inr (y, s2) \<Rightarrow>
               Inr (fmul rnd
                      (np_true_divide rnd
                         (np_sum (np_less (np_add rnd (np_mul rnd x x) (np_mul rnd y y)) 1)) n)
                      (Fin 4))))"

text \<open>The cell with the \<open>for\<close> loop: each pass draws \<open>u\<close>, then \<open>v\<close>.\<close>

record 's pi_vars =
  var_count :: int
  var_rando :: 's

definition pi_body ::
  "(real \<Rightarrow> real) \<Rightarrow> ('s \<Rightarrow> real \<times> 's) \<Rightarrow> nat \<Rightarrow> 's pi_vars \<Rightarrow> error + 's pi_vars" where
  "pi_body rnd uniform i w =
     (let (u, s1) = uniform (var_rando w);
          (v, s2) = uniform s1;
          w1 = w\<lparr>var_rando := s2\<rparr>
      in Inr (if rnd (rnd (u * u) + rnd (v * v)) < 1
              then w1\<lparr>var_count := var_count w1 + 1\<rparr> else w1))"

definition pi_est ::
  "(real \<Rightarrow> real) \<Rightarrow> ('s \<Rightarrow> real \<times> 's) \<Rightarrow> 's \<Rightarrow> int \<Rightarrow> error + fval" where
  "pi_est rnd uniform rando n =
     (case for_loop (pi_body rnd uniform) (py_range n) \<lparr>var_count = 0, var_rando = rando\<rparr> of
        Inl e \<Rightarrow> Inl e
      | Inr w \<Rightarrow>
          (case py_true_div_rnd rnd (var_count w) n of
             Inl e \<Rightarrow> Inl e
           | Inr q \<Rightarrow> Inr (Fin (rnd (q * 4)))))"

section \<open>The algorithm as the specification words it\<close>

text \<open>
  The specification describes one iteration as: draw a candidate, compute the
  log-acceptance-ratio, draw \<open>u\<close>, accept when \<open>log u\<close> is below the ratio, and record
  the state. \<open>mh_step\<close> is that iteration without any array: it gives the decision, the
  state recorded and the next state of the random source. \<open>mh_trace\<close> lists decision and
  recorded state of \<open>k\<close> successive iterations. The code is compared with them below.
\<close>

definition mh_step ::
  "('s \<Rightarrow> real \<times> 's) \<Rightarrow> ('a list \<Rightarrow> fval) \<Rightarrow> ('a list \<Rightarrow> 's \<Rightarrow> 'a list \<times> 's) \<Rightarrow>
   'a list \<Rightarrow> 's \<Rightarrow> bool \<times> 'a list \<times> 's" where
  "mh_step U L P x s =
     (let (c, s1) = P x s;
          (u, s2) = U s1;
          a = fless (np_log u) (fsub (L c) (L x))
      in (a, if a then c else x, s2))"

fun mh_trace ::
  "('s \<Rightarrow> real \<times> 's) \<Rightarrow> ('a list \<Rightarrow> fval) \<Rightarrow> ('a list \<Rightarrow> 's \<Rightarrow> 'a list \<times> 's) \<Rightarrow>
   nat \<Rightarrow> 'a list \<Rightarrow> 's \<Rightarrow> (bool \<times> 'a list) list" where
  "mh_trace U L P 0 x s = []"
| "mh_trace U L P (Suc k) x s =
     (case mh_step U L P x s of (a, x', s') \<Rightarrow> (a, x') # mh_trace U L P k x' s')"

text \<open>The shape \<open>(2, n)\<close> of the chain buffer.\<close>

definition chain_ok :: "nat \<Rightarrow> 'a list list \<Rightarrow> bool" where
  "chain_ok n ch = (length ch = 2 \<and> (\<forall>row \<in> set ch. length row = n))"

text \<open>
  The points a pi estimator has sampled, and how many of them fall inside the circle:
  by the exact test \<open>x\<^sup>2 + y\<^sup>2 < 1\<close>, and by the test as the cells evaluate it.
\<close>

definition hits :: "(real \<times> real) list \<Rightarrow> nat" where
  "hits pts = length (filter (\<lambda>(x, y). x * x + y * y < 1) pts)"

definition hits_rnd :: "(real \<Rightarrow> real) \<Rightarrow> (real \<times> real) list \<Rightarrow> nat" where
  "hits_rnd rnd pts = length (filter (\<lambda>(x, y). rnd (rnd (x * x) + rnd (y * y)) < 1) pts)"

fun pairs_drawn :: "('s \<Rightarrow> real \<times> 's) \<Rightarrow> nat \<Rightarrow> 's \<Rightarrow> (real \<times> real) list" where
  "pairs_drawn uniform 0 s = []"
| "pairs_drawn uniform (Suc k) s =
     (let (u, s1) = uniform s; (v, s2) = uniform s1 in (u, v) # pairs_drawn uniform k s2)"

section \<open>Inputs for concrete runs\<close>

text \<open>
  Random sources: one that always yields \<open>1/2\<close>, and one that replays a list.
  Candidate generators: staying at the current state, and jumping to a fixed state.
  Log-densities: a flat one, and one that is minus infinity at \<open>[5, 5]\<close>. A point of
  the float64 grid in the unit square, strictly inside the circle, whose sum of squares
  is 1 in float64: \<open>0.8474337369372327\<close> and \<open>0.5309011786581351\<close>.
\<close>

definition half_source :: "unit \<Rightarrow> real \<times> unit" where
  "half_source s = (1 / 2, s)"

fun list_source :: "real list \<Rightarrow> real \<times> real list" where
  "list_source [] = (0, [])"
| "list_source (u # us) = (u, us)"

definition stay :: "real list \<Rightarrow> 's \<Rightarrow> real list \<times> 's" where
  "stay x s = (x, s)"

definition jump_to :: "real list \<Rightarrow> real list \<Rightarrow> 's \<Rightarrow> real list \<times> 's" where
  "jump_to c x s = (c, s)"

definition flat_target :: "real list \<Rightarrow> fval" where
  "flat_target x = Fin 0"

definition wall_target :: "real list \<Rightarrow> fval" where
  "wall_target x = (if x = [5, 5] then NInf else Fin 0)"

definition boundary_u :: real where
  "boundary_u = 954125565472927 / 2 ^ 50"

definition boundary_v :: real where
  "boundary_v = 4781932700750669 / 2 ^ 53"

lemmas run_defs = metropolis_hastings_def mh_locals_def np_zeros_def reshape2_def py_range_def
  loop_body_def reshape1_def set_column_def py_true_div_def np_log_def Let_def
  half_source_def stay_def jump_to_def flat_target_def wall_target_def numeral_2_eq_2

section \<open>Floats\<close>

lemma fless_NaN_right [simp]: "fless a NaN = False"
  by (cases a) simp_all

lemma fless_NInf_right [simp]: "fless a NInf = False"
  by (cases a) simp_all


section \<open>The chain buffer\<close>

lemma chain_ok_cases: "chain_ok n ch \<Longrightarrow> \<exists>r0 r1. ch = [r0, r1] \<and> length r0 = n \<and> length r1 = n"
  by (cases ch; cases "tl ch") (auto simp: chain_ok_def)

lemma set_column_ok:
  assumes "chain_ok n ch" "i < n" "length col = 2"
  shows "\<exists>ch'. set_column ch i col = Inr ch' \<and> chain_ok n ch' \<and>
           (\<forall>j. column ch' j = (if j = i then col else column ch j))"
proof -
  from chain_ok_cases[OF assms(1)] obtain r0 r1 where ch: "ch = [r0, r1]" "length r0 = n" "length r1 = n" by blast
  from assms(3) obtain a b where col: "col = [a, b]"
    by (cases col; cases "tl col") auto
  show ?thesis using assms(2) ch col
    by (auto simp: set_column_def chain_ok_def column_def)
qed

lemma initial_chain:
  "0 \<le> n \<Longrightarrow> \<exists>z. np_zeros (2 * n) = Inr z \<and> reshape2 z 2 (nat n) = Inr [replicate (nat n) 0, replicate (nat n) 0]"
  by (simp add: np_zeros_def reshape2_def numeral_2_eq_2 nat_mult_distrib flip: replicate_add)

section \<open>The loop of the sampler and the trace of the algorithm\<close>


lemma loop_body_ok:
  assumes "chain_ok n (var_chain v)" "i < n"
    and "mh_step U L P (var_x v) (var_rng v) = (a, x', s')" "length x' = 2"
  shows "\<exists>v'. loop_body U L P i v = Inr v' \<and> var_x v' = x' \<and>
           var_accepted v' = var_accepted v + (if a then 1 else 0) \<and> var_rng v' = s' \<and>
           chain_ok n (var_chain v') \<and>
           (\<forall>j. column (var_chain v') j = (if j = i then x' else column (var_chain v) j))"
proof -
  from set_column_ok[OF assms(1,2,4)] obtain ch' where
    ch': "set_column (var_chain v) i x' = Inr ch'" "chain_ok n ch'"
      "\<forall>j. column ch' j = (if j = i then x' else column (var_chain v) j)" by blast
  show ?thesis
    using assms(3,4) ch'
    by (auto simp: loop_body_def mh_step_def reshape1_def Let_def split: prod.splits if_splits)
qed

lemma for_loop_trace:
  "chain_ok n (var_chain v) \<Longrightarrow> i + k \<le> n \<Longrightarrow>
   \<forall>e \<in> set (mh_trace U L P k (var_x v) (var_rng v)). length (snd e) = 2 \<Longrightarrow>
         \<exists>v'. for_loop (loop_body U L P) [i ..< i + k] v = Inr v' \<and>
           chain_ok n (var_chain v') \<and>
           var_accepted v' =
             var_accepted v + int (length (filter fst (mh_trace U L P k (var_x v) (var_rng v)))) \<and>
           (\<forall>j. column (var_chain v') j =
                (if i \<le> j \<and> j < i + k
                 then snd (mh_trace U L P k (var_x v) (var_rng v) ! (j - i))
                 else column (var_chain v) j))"
proof (induction k arbitrary: i v)
  case 0
  then show ?case by auto
next
  case (Suc k)
  obtain a x1 s2 where st: "mh_step U L P (var_x v) (var_rng v) = (a, x1, s2)"
    by (cases "mh_step U L P (var_x v) (var_rng v)")
  have tr: "mh_trace U L P (Suc k) (var_x v) (var_rng v) = (a, x1) # mh_trace U L P k x1 s2"
    using st by simp
  have len: "length x1 = 2" and rest: "\<forall>e \<in> set (mh_trace U L P k x1 s2). length (snd e) = 2"
    using Suc.prems(3) unfolding tr by simp_all
  have "i < n" using Suc.prems(2) by simp
  from loop_body_ok[OF Suc.prems(1) this st len] obtain v1 where
    v1: "loop_body U L P i v = Inr v1" "var_x v1 = x1"
      "var_accepted v1 = var_accepted v + (if a then 1 else 0)" "var_rng v1 = s2"
      "chain_ok n (var_chain v1)"
      "\<forall>j. column (var_chain v1) j = (if j = i then x1 else column (var_chain v) j)"
    by blast
  have "Suc i + k \<le> n" using Suc.prems(2) by simp
  from Suc.IH[OF v1(5) this] rest obtain v' where
    v': "for_loop (loop_body U L P) [Suc i ..< Suc i + k] v1 = Inr v'"
      "chain_ok n (var_chain v')"
      "var_accepted v' = var_accepted v1 + int (length (filter fst (mh_trace U L P k x1 s2)))"
      "\<forall>j. column (var_chain v') j =
            (if Suc i \<le> j \<and> j < Suc i + k then snd (mh_trace U L P k x1 s2 ! (j - Suc i))
             else column (var_chain v1) j)"
    unfolding v1(2,4) by blast
  have upt: "[i ..< i + Suc k] = i # [Suc i ..< Suc i + k]"
    by (simp add: upt_conv_Cons)
  have run: "for_loop (loop_body U L P) [i ..< i + Suc k] v = Inr v'"
    unfolding upt using v1(1) v'(1) by simp
  have acc: "var_accepted v' =
      var_accepted v + int (length (filter fst (mh_trace U L P (Suc k) (var_x v) (var_rng v))))"
    unfolding tr using v'(3) v1(3) by simp
  have col: "column (var_chain v') j =
      (if i \<le> j \<and> j < i + Suc k
       then snd (mh_trace U L P (Suc k) (var_x v) (var_rng v) ! (j - i))
       else column (var_chain v) j)" for j
  proof (cases "j = i")
    case True
    then show ?thesis unfolding tr using v'(4) v1(6) by simp
  next
    case False
    then show ?thesis unfolding tr using v'(4) v1(6)
      by (auto simp: nth_Cons' Suc_diff_Suc less_Suc_eq_le)
  qed
  show ?case using run v'(2) acc col by blast
qed

lemma length_mh_trace: "length (mh_trace U L P k x s) = k"
  by (induction k arbitrary: x s) (simp_all split: prod.splits)

lemma mh_locals_trace:
  assumes "0 \<le> n"
    and "\<forall>e \<in> set (mh_trace U L P (nat n) chain_start rng). length (snd e) = 2"
  shows "\<exists>v. mh_locals U rng chain_start n L P = Inr v \<and> chain_ok (nat n) (var_chain v) \<and>
           var_accepted v = int (length (filter fst (mh_trace U L P (nat n) chain_start rng))) \<and>
           columns (var_chain v) (nat n) = map snd (mh_trace U L P (nat n) chain_start rng)"
proof -
  let ?v0 = "\<lparr>var_x = chain_start, var_chain = [replicate (nat n) 0, replicate (nat n) 0],
              var_accepted = 0, var_rng = rng\<rparr>"
  let ?T = "mh_trace U L P (nat n) chain_start rng"
  from initial_chain[OF assms(1)] obtain z :: "'a list" where
    z: "np_zeros (2 * n) = Inr z"
       "reshape2 z 2 (nat n) = Inr [replicate (nat n) 0, replicate (nat n) 0]" by blast
  have ok0: "chain_ok (nat n) (var_chain ?v0)" by (simp add: chain_ok_def)
  have "\<exists>v'. for_loop (loop_body U L P) [0 ..< 0 + nat n] ?v0 = Inr v' \<and>
           chain_ok (nat n) (var_chain v') \<and>
           var_accepted v' = var_accepted ?v0 + int (length (filter fst (mh_trace U L P (nat n) (var_x ?v0) (var_rng ?v0)))) \<and>
           (\<forall>j. column (var_chain v') j =
                (if 0 \<le> j \<and> j < 0 + nat n
                 then snd (mh_trace U L P (nat n) (var_x ?v0) (var_rng ?v0) ! (j - 0))
                 else column (var_chain ?v0) j))"
    by (rule for_loop_trace[OF ok0]) (use assms(2) in simp_all)
  then obtain v where v: "for_loop (loop_body U L P) [0 ..< nat n] ?v0 = Inr v"
      "chain_ok (nat n) (var_chain v)"
      "var_accepted v = int (length (filter fst ?T))"
      "\<forall>j < nat n. column (var_chain v) j = snd (?T ! j)"
    by auto
  have "columns (var_chain v) (nat n) = map snd ?T"
    by (rule nth_equalityI) (simp_all add: columns_def length_mh_trace v(4))
  moreover have "mh_locals U rng chain_start n L P = Inr v"
    using z v(1) by (simp add: mh_locals_def py_range_def)
  ultimately show ?thesis using v(2,3) by blast
qed

lemma mh_trace_reject:
  "i < k \<Longrightarrow> \<not> fst (mh_trace U L P k x s ! i) \<Longrightarrow>
   snd (mh_trace U L P k x s ! i) = (if i = 0 then x else snd (mh_trace U L P k x s ! (i - 1)))"
proof (induction k arbitrary: x s i)
  case 0
  then show ?case by simp
next
  case (Suc k)
  obtain a x1 s2 where st: "mh_step U L P x s = (a, x1, s2)"
    by (cases "mh_step U L P x s")
  have tr: "mh_trace U L P (Suc k) x s = (a, x1) # mh_trace U L P k x1 s2"
    using st by simp
  show ?case
  proof (cases i)
    case 0
    then show ?thesis using Suc.prems st unfolding tr
      by (auto simp: mh_step_def Let_def split: prod.splits)
  next
    case (Suc j)
    then show ?thesis using Suc.prems Suc.IH[of j x1 s2] unfolding tr
      by (cases j) auto
  qed
qed

lemma mh_trace_len2:
  assumes "\<forall>x s. length x = 2 \<longrightarrow> length (fst (P x s)) = 2"
  shows "length x = 2 \<Longrightarrow> \<forall>e \<in> set (mh_trace U L P k x s). length (snd e) = 2"
proof (induction k arbitrary: x s)
  case 0
  then show ?case by simp
next
  case (Suc k)
  obtain a x1 s2 where st: "mh_step U L P x s = (a, x1, s2)"
    by (cases "mh_step U L P x s")
  obtain c s1 where P: "P x s = (c, s1)" by (cases "P x s")
  have "length c = 2" using assms[rule_format, of x s] Suc.prems P by simp
  then have "length x1 = 2"
    using st Suc.prems P by (auto simp: mh_step_def Let_def split: prod.splits if_splits)
  with Suc.IH[of x1 s2] st show ?case by simp
qed

lemma mh_outcome_trace:
  assumes "0 < n"
    and "\<forall>e \<in> set (mh_trace U L P (nat n) chain_start rng). length (snd e) = 2"
  shows "\<exists>r. metropolis_hastings U rng chain_start n L P = Inr r \<and>
           chain_ok (nat n) (returned r) \<and>
           columns (returned r) (nat n) = map snd (mh_trace U L P (nat n) chain_start rng) \<and>
           printed r =
             real (length (filter fst (mh_trace U L P (nat n) chain_start rng))) / real_of_int n * 100"
proof -
  from assms(1) have "0 \<le> n" by simp
  from mh_locals_trace[OF this assms(2)] obtain v where
    v: "mh_locals U rng chain_start n L P = Inr v" "chain_ok (nat n) (var_chain v)"
       "var_accepted v = int (length (filter fst (mh_trace U L P (nat n) chain_start rng)))"
       "columns (var_chain v) (nat n) = map snd (mh_trace U L P (nat n) chain_start rng)"
    by blast
  show ?thesis
    using v assms(1) by (simp add: metropolis_hastings_def py_true_div_def)
qed



lemma mh_trace_never:
  assumes "L x = Fin c" "\<forall>s. L (fst (P x s)) = NInf"
  shows "mh_trace U L P k x s = replicate k (False, x)"
proof (induction k arbitrary: s)
  case 0
  then show ?case by simp
next
  case (Suc k)
  obtain c' s1 where P: "P x s = (c', s1)" by (cases "P x s")
  obtain u s2 where U: "U s1 = (u, s2)" by (cases "U s1")
  have "L c' = NInf" using assms(2)[rule_format, of s] P by simp
  then have "mh_step U L P x s = (False, x, s2)"
    using P U by (simp add: mh_step_def assms(1))
  with Suc.IH[of s2] show ?case by simp
qed

lemma loop_body_accepted:
  "loop_body U L P i v = Inr v' \<Longrightarrow>
   var_accepted v \<le> var_accepted v' \<and> var_accepted v' \<le> var_accepted v + 1"
  by (auto simp: loop_body_def Let_def split: prod.splits sum.splits if_splits)

lemma for_loop_accepted:
  "for_loop (loop_body U L P) is v = Inr v' \<Longrightarrow>
   var_accepted v \<le> var_accepted v' \<and> var_accepted v' \<le> var_accepted v + int (length is)"
proof (induction "is" arbitrary: v)
  case Nil
  then show ?case by simp
next
  case (Cons i "is")
  then obtain v1 where v1: "loop_body U L P i v = Inr v1" "for_loop (loop_body U L P) is v1 = Inr v'"
    by (auto split: sum.splits)
  from loop_body_accepted[OF v1(1)] Cons.IH[OF v1(2)] show ?case by simp
qed

section \<open>Rounding to float64\<close>

lemma floor_log2_eq:
  assumes "2 powr of_int e \<le> x" "x < 2 powr of_int (e + 1)"
  shows "\<lfloor>log 2 x\<rfloor> = e"
proof -
  have pos: "0 < x" using assms(1) by (smt (verit) powr_gt_zero)
  have "of_int e \<le> log 2 x" using assms(1) pos by (simp add: le_log_iff)
  moreover have "log 2 x < of_int (e + 1)" using assms(2) pos by (simp add: log_less_iff)
  ultimately show ?thesis by linarith
qed

lemma rnd64_in_binade:
  assumes "2 powr of_int e \<le> \<bar>x\<bar>" "\<bar>x\<bar> < 2 powr of_int (e + 1)" "- 1022 \<le> e"
  shows "rnd64 x = of_int (round_half_even (x / 2 powr of_int (e - 52))) * 2 powr of_int (e - 52)"
proof -
  have "x \<noteq> 0" using assms(1) by (smt (verit) powr_gt_zero)
  moreover have "\<lfloor>log 2 \<bar>x\<bar>\<rfloor> = e" using assms(1,2) by (rule floor_log2_eq)
  ultimately show ?thesis using assms(3) by (simp add: rnd64_def Let_def max_def)
qed

lemma rnd64_0: "rnd64 0 = 0"
  by (simp add: rnd64_def)

lemma rnd64_1: "rnd64 1 = 1"
proof -
  have "rnd64 1 = of_int (round_half_even (1 / 2 powr of_int (0 - 52))) * 2 powr of_int (0 - 52)"
    by (rule rnd64_in_binade) simp_all
  also have "\<dots> = 1"
    by (simp add: round_half_even_def powr_minus powr_numeral Let_def)
  finally show ?thesis .
qed

lemma rnd64_2: "rnd64 2 = 2"
proof -
  have "rnd64 2 = of_int (round_half_even (2 / 2 powr of_int (1 - 52))) * 2 powr of_int (1 - 52)"
    by (rule rnd64_in_binade) simp_all
  also have "\<dots> = 2"
    by (simp add: round_half_even_def powr_minus powr_numeral Let_def)
  finally show ?thesis .
qed

lemma rnd64_boundary_u_sq: "rnd64 (boundary_u * boundary_u) = 3234232773824291 / 2 ^ 52"
proof -
  have "rnd64 (boundary_u * boundary_u) =
      of_int (round_half_even (boundary_u * boundary_u / 2 powr of_int (- 1 - 52))) *
        2 powr of_int (- 1 - 52)"
    by (rule rnd64_in_binade) (simp_all add: boundary_u_def powr_minus powr_numeral)
  also have "\<dots> = 3234232773824291 / 2 ^ 52"
    by (simp add: boundary_u_def round_half_even_def powr_minus powr_numeral Let_def)
  finally show ?thesis .
qed

lemma rnd64_boundary_v_sq: "rnd64 (boundary_v * boundary_v) = 5077467414184819 / 2 ^ 54"
proof -
  have "rnd64 (boundary_v * boundary_v) =
      of_int (round_half_even (boundary_v * boundary_v / 2 powr of_int (- 2 - 52))) *
        2 powr of_int (- 2 - 52)"
    by (rule rnd64_in_binade) (simp_all add: boundary_v_def powr_minus powr_numeral)
  also have "\<dots> = 5077467414184819 / 2 ^ 54"
    by (simp add: boundary_v_def round_half_even_def powr_minus powr_numeral Let_def)
  finally show ?thesis .
qed

lemma rnd64_boundary_sum: "rnd64 (3234232773824291 / 2 ^ 52 + 5077467414184819 / 2 ^ 54) = 1"
proof -
  have "rnd64 (3234232773824291 / 2 ^ 52 + 5077467414184819 / 2 ^ 54) =
      of_int (round_half_even ((3234232773824291 / 2 ^ 52 + 5077467414184819 / 2 ^ 54) /
        2 powr of_int (- 1 - 52))) * 2 powr of_int (- 1 - 52)"
    by (rule rnd64_in_binade) (simp_all add: powr_minus powr_numeral)
  also have "\<dots> = 1"
    by (simp add: round_half_even_def powr_minus powr_numeral Let_def)
  finally show ?thesis .
qed

section \<open>The estimators of pi on the points they sample\<close>

lemma length_draw: "length (fst (draw U k s)) = k"
proof (induction k arbitrary: s)
  case 0
  then show ?case by simp
next
  case (Suc k)
  obtain u s1 where U: "U s = (u, s1)" by (cases "U s")
  obtain us s2 where D: "draw U k s1 = (us, s2)" by (cases "draw U k s1")
  from Suc.IH[of s1] D have "length us = k" by simp
  then show ?case using U D by simp
qed

lemma np_sum_hits:
  "length xs = length ys \<Longrightarrow>
   np_sum (np_less (np_add rnd (np_mul rnd xs xs) (np_mul rnd ys ys)) 1) =
     int (hits_rnd rnd (zip xs ys))"
  by (induction xs ys rule: list_induct2)
     (simp_all add: np_sum_def np_less_def np_add_def np_mul_def hits_rnd_def)

lemma hits_rnd_le: "hits_rnd rnd pts \<le> length pts"
  by (simp add: hits_rnd_def)

lemma pi_estimate_hits:
  assumes "0 < n" "\<forall>k. 0 \<le> k \<and> k \<le> n \<longrightarrow> rnd (real_of_int k) = real_of_int k"
    and "draw U (nat n) s = (xs, s1)" "draw U (nat n) s1 = (ys, s2)"
  shows "pi_estimate rnd U s n =
           Inr (Fin (rnd (rnd (real (hits_rnd rnd (zip xs ys)) / real_of_int n) * 4)))"
proof -
  let ?h = "hits_rnd rnd (zip xs ys)"
  have len: "length xs = nat n" "length ys = nat n"
    using length_draw[of U "nat n" s] length_draw[of U "nat n" s1] assms(3,4) by simp_all
  then have sum: "np_sum (np_less (np_add rnd (np_mul rnd xs xs) (np_mul rnd ys ys)) 1) = int ?h"
    by (simp add: np_sum_hits)
  have "?h \<le> nat n" using hits_rnd_le[of rnd "zip xs ys"] len by simp
  then have "0 \<le> int ?h \<and> int ?h \<le> n" using assms(1) by simp
  then have h: "rnd (real_of_int (int ?h)) = real_of_int (int ?h)" using assms(2) by blast
  have n: "rnd (real_of_int n) = real_of_int n" using assms(1,2) by simp
  show ?thesis
    using assms(1,3,4) sum h n by (simp add: pi_estimate_def uniform_size_def np_true_divide_def)
qed

lemma for_loop_pi_body:
  "\<exists>w'. for_loop (pi_body rnd U) is w = Inr w' \<and>
     var_count w' = var_count w + int (hits_rnd rnd (pairs_drawn U (length is) (var_rando w)))"
proof (induction "is" arbitrary: w)
  case Nil
  then show ?case by (simp add: hits_rnd_def)
next
  case (Cons i "is")
  obtain u s1 where U1: "U (var_rando w) = (u, s1)" by (cases "U (var_rando w)")
  obtain v s2 where U2: "U s1 = (v, s2)" by (cases "U s1")
  define w1 where "w1 = (if rnd (rnd (u * u) + rnd (v * v)) < 1
     then w\<lparr>var_rando := s2, var_count := var_count w + 1\<rparr>
     else w\<lparr>var_rando := s2\<rparr>)"
  have body: "pi_body rnd U i w = Inr w1"
    using U1 U2 by (simp add: pi_body_def w1_def)
  have r: "var_rando w1 = s2" by (simp add: w1_def)
  from Cons.IH[of w1] obtain w' where
    "for_loop (pi_body rnd U) is w1 = Inr w'"
    "var_count w' = var_count w1 + int (hits_rnd rnd (pairs_drawn U (length is) s2))"
    unfolding r by blast
  then show ?case
    using body U1 U2 by (auto simp: w1_def hits_rnd_def)
qed

lemma pi_est_hits:
  assumes "0 < n"
  shows "pi_est rnd U s n =
           Inr (Fin (rnd (rnd (real (hits_rnd rnd (pairs_drawn U (nat n) s)) / real_of_int n) * 4)))"
proof -
  from for_loop_pi_body[of rnd U "py_range n" "\<lparr>var_count = 0, var_rando = s\<rparr>"]
  obtain w' where
    "for_loop (pi_body rnd U) (py_range n) \<lparr>var_count = 0, var_rando = s\<rparr> = Inr w'"
    "var_count w' = int (hits_rnd rnd (pairs_drawn U (nat n) s))"
    by (auto simp: py_range_def)
  then show ?thesis using assms by (simp add: pi_est_def py_true_div_rnd_def)
qed

section \<open>The claims about the sampler\<close>

text \<open>
  Claim C1. For every \<open>n > 0\<close> and every log-density and candidate generator (on states
  of two elements, the only ones the chain buffer takes: the initial state has two
  elements and the generator gives two for two), the run returns a chain with
  exactly \<open>n\<close> entries, one per iteration: the array returned has two rows of length
  \<open>n\<close>, its \<open>n\<close> columns are the states recorded by the \<open>n\<close> iterations, and on an
  iteration whose candidate is rejected the column equals the previous state (the
  initial state for the first iteration). The number of accepted candidates plays no
  part.
\<close>

theorem chain_has_n_entries:
  assumes "0 < n" "length chain_start = 2"
    and "\<forall>x s. length x = 2 \<longrightarrow> length (fst (P x s)) = 2"
  shows "\<exists>r. metropolis_hastings U rng chain_start n L P = Inr r \<and>
           length (returned r) = 2 \<and> (\<forall>row \<in> set (returned r). length row = nat n) \<and>
           length (columns (returned r) (nat n)) = nat n \<and>
           columns (returned r) (nat n) = map snd (mh_trace U L P (nat n) chain_start rng) \<and>
           (\<forall>i < nat n. \<not> fst (mh_trace U L P (nat n) chain_start rng ! i) \<longrightarrow>
              column (returned r) i = (if i = 0 then chain_start else column (returned r) (i - 1)))"
proof -
  let ?T = "mh_trace U L P (nat n) chain_start rng"
  note len2 = mh_trace_len2[OF assms(3,2)]
  from mh_outcome_trace[OF assms(1) len2] obtain r where
    r: "metropolis_hastings U rng chain_start n L P = Inr r" "chain_ok (nat n) (returned r)"
       "columns (returned r) (nat n) = map snd ?T"
    by blast
  have col: "column (returned r) i = snd (?T ! i)" if "i < nat n" for i
  proof -
    have "columns (returned r) (nat n) ! i = map snd ?T ! i" using r(3) by simp
    then show ?thesis using that by (simp add: columns_def length_mh_trace)
  qed
  have "column (returned r) i = (if i = 0 then chain_start else column (returned r) (i - 1))"
    if "i < nat n" "\<not> fst (?T ! i)" for i
    using mh_trace_reject[OF that] that(1) by (simp add: col)
  then show ?thesis
    using r by (auto simp: chain_ok_def columns_def)
qed

theorem chain_has_n_entries_witness:
  "\<exists>r. metropolis_hastings half_source () [1, 2] 2 wall_target (jump_to [5, 5]) = Inr r \<and>
       length (returned r) = 2 \<and> (\<forall>row \<in> set (returned r). length row = nat 2) \<and>
       length (columns (returned r) (nat 2)) = nat 2 \<and>
       columns (returned r) (nat 2) =
         map snd (mh_trace half_source wall_target (jump_to [5, 5]) (nat 2) [1, 2] ()) \<and>
       (\<forall>i < nat 2. \<not> fst (mh_trace half_source wall_target (jump_to [5, 5]) (nat 2) [1, 2] () ! i) \<longrightarrow>
          column (returned r) i = (if i = 0 then [1, 2] else column (returned r) (i - 1)))"
  by (rule chain_has_n_entries) (simp_all add: jump_to_def)




text \<open>
  Claim C3, as the code has it. The claim says that a call with \<open>n \<le> 0\<close> fails with an
  invalid-argument condition. The function never inspects \<open>n\<close>. With \<open>n = 0\<close> the
  buffer is allocated, the loop runs no iteration, and the exception is the
  ZeroDivisionError of \<open>accepted / n\<close> in the closing \<open>print\<close>, not the ValueError with
  which Python reports an unacceptable argument:
\<close>

theorem zero_iterations_raise_ZeroDivisionError:
  "metropolis_hastings half_source () [1, 2] 0 flat_target stay = Inl ZeroDivisionError \<and>
   ZeroDivisionError \<noteq> ValueError"
  by (simp add: run_defs)

text \<open>
  Claim C3, amended. Every call with \<open>n \<le> 0\<close> raises and returns no chain: for
  \<open>n < 0\<close> the ValueError of \<open>np.zeros\<close> refusing a negative dimension, before any
  iteration; for \<open>n = 0\<close> the ZeroDivisionError of the acceptance rate, after a loop
  of no iterations.
\<close>

theorem nonpositive_n_raises:
  assumes "n \<le> 0"
  shows "metropolis_hastings U rng chain_start n L P =
           Inl (if n < 0 then ValueError else ZeroDivisionError)"
proof (cases "n < 0")
  case True
  then show ?thesis
    by (simp add: metropolis_hastings_def mh_locals_def np_zeros_def)
next
  case False
  with assms have "n = 0" by simp
  then show ?thesis
    by (simp add: metropolis_hastings_def mh_locals_def np_zeros_def reshape2_def py_range_def
        py_true_div_def numeral_2_eq_2)
qed

theorem nonpositive_n_raises_witness:
  "metropolis_hastings half_source () [1, 2] (- 1) flat_target stay = Inl ValueError"
  using nonpositive_n_raises[of "- 1" half_source "()" "[1, 2]" flat_target stay] by simp



text \<open>
  Claim C6. If the log-density is minus infinity at every candidate generated while it
  is finite at the initial state, then for every \<open>n > 0\<close> no candidate is accepted: the
  count is 0, the rate printed is 0, and the chain returned consists of \<open>n\<close> copies of
  the initial state.
\<close>

theorem impossible_candidates_rejected:
  assumes "0 < n" "length chain_start = 2" "L chain_start = Fin c"
    and "\<forall>s. L (fst (P chain_start s)) = NInf"
  shows "(\<exists>v. mh_locals U rng chain_start n L P = Inr v \<and> var_accepted v = 0) \<and>
         (\<exists>r. metropolis_hastings U rng chain_start n L P = Inr r \<and> printed r = 0 \<and>
              columns (returned r) (nat n) = replicate (nat n) chain_start \<and>
              returned r = [replicate (nat n) (chain_start ! 0), replicate (nat n) (chain_start ! 1)])"
proof -
  let ?T = "mh_trace U L P (nat n) chain_start rng"
  have T: "?T = replicate (nat n) (False, chain_start)"
    using assms(3,4) by (rule mh_trace_never)
  have len2: "\<forall>e \<in> set ?T. length (snd e) = 2" unfolding T using assms(2) by simp
  have cnt: "length (filter fst ?T) = 0" unfolding T by simp
  from assms(1) have n0: "0 \<le> n" by simp
  from mh_locals_trace[OF n0 len2] cnt
  have A: "\<exists>v. mh_locals U rng chain_start n L P = Inr v \<and> var_accepted v = 0" by auto
  from mh_outcome_trace[OF assms(1) len2] obtain r where
    r: "metropolis_hastings U rng chain_start n L P = Inr r" "chain_ok (nat n) (returned r)"
       "columns (returned r) (nat n) = map snd ?T"
       "printed r = real (length (filter fst ?T)) / real_of_int n * 100"
    by blast
  have cols: "columns (returned r) (nat n) = replicate (nat n) chain_start"
    using r(3) unfolding T by simp
  from chain_ok_cases[OF r(2)] obtain r0 r1 where
    rows: "returned r = [r0, r1]" "length r0 = nat n" "length r1 = nat n" by blast
  have el: "r0 ! i = chain_start ! 0 \<and> r1 ! i = chain_start ! 1" if "i < nat n" for i
  proof -
    have "columns (returned r) (nat n) ! i = chain_start" using cols that by simp
    then have "[r0 ! i, r1 ! i] = chain_start"
      using that by (simp add: columns_def column_def rows)
    then show ?thesis by auto
  qed
  have "r0 = replicate (nat n) (chain_start ! 0)" "r1 = replicate (nat n) (chain_start ! 1)"
    using rows el by (auto intro!: nth_equalityI)
  then show ?thesis using A r(1,4) cols rows cnt by auto
qed

theorem impossible_candidates_rejected_witness:
  "(\<exists>v. mh_locals half_source () [1, 2] 2 wall_target (jump_to [5, 5]) = Inr v \<and>
        var_accepted v = 0) \<and>
   (\<exists>r. metropolis_hastings half_source () [1, 2] 2 wall_target (jump_to [5, 5]) = Inr r \<and>
        printed r = 0 \<and>
        columns (returned r) (nat 2) = replicate (nat 2) [1, 2] \<and>
        returned r = [replicate (nat 2) ([1, 2] ! 0), replicate (nat 2) ([1, 2] ! 1)])"
  by (rule impossible_candidates_rejected[where c = 0]) (simp_all add: wall_target_def jump_to_def)

text \<open>
  Claim C7. On an iteration where the log-density is minus infinity both at the current
  state and at the candidate, the ratio is NaN, the comparison \<open>log u < NaN\<close> is false
  whatever \<open>u\<close> is, and the candidate is rejected: the state and the count of accepted
  candidates stay as they were, and the state is recorded once more.
\<close>

theorem nan_ratio_rejects:
  assumes "L (var_x v) = NInf" "L (fst (P (var_x v) (var_rng v))) = NInf"
    and "length (var_x v) = 2" "length (var_chain v) = 2"
    and "\<forall>row \<in> set (var_chain v). i < length row"
  shows "fsub (L (fst (P (var_x v) (var_rng v)))) (L (var_x v)) = NaN \<and>
         (\<exists>v'. loop_body U L P i v = Inr v' \<and> var_x v' = var_x v \<and>
           var_accepted v' = var_accepted v \<and> column (var_chain v') i = var_x v)"
proof -
  obtain c s1 where P: "P (var_x v) (var_rng v) = (c, s1)" by (cases "P (var_x v) (var_rng v)")
  obtain u s2 where U: "U s1 = (u, s2)" by (cases "U s1")
  obtain r0 r1 where ch: "var_chain v = [r0, r1]"
    using assms(4) by (cases "var_chain v"; cases "tl (var_chain v)") auto
  obtain a b where x: "var_x v = [a, b]"
    using assms(3) by (cases "var_x v"; cases "tl (var_x v)") auto
  show ?thesis
    using assms(1,2,5) P U ch x
    by (simp add: loop_body_def reshape1_def set_column_def column_def Let_def)
qed

theorem nan_ratio_rejects_witness:
  "fsub (wall_target (fst (stay [5, 5] ()))) (wall_target [5, 5]) = NaN \<and>
   (\<exists>v'. loop_body half_source wall_target stay 0
          \<lparr>var_x = [5, 5], var_chain = [ [0], [0] ], var_accepted = 0, var_rng = ()\<rparr> = Inr v' \<and>
        var_x v' = [5, 5] \<and> var_accepted v' = 0 \<and> column (var_chain v') 0 = [5, 5])"
  using nan_ratio_rejects[of wall_target
      "\<lparr>var_x = [5, 5], var_chain = [ [0], [0] ], var_accepted = 0, var_rng = ()\<rparr>"
      stay 0 half_source]
  by (simp add: wall_target_def stay_def)

text \<open>
  Claim C8. The count of accepted candidates starts at 0 and grows by at most one in
  each iteration: whenever the loop is left, it lies between 0 and \<open>n\<close>.
\<close>

theorem accepted_within_bounds:
  assumes "mh_locals U rng chain_start n L P = Inr v"
  shows "0 \<le> var_accepted v \<and> var_accepted v \<le> n"
proof -
  from assms obtain ch where
    "for_loop (loop_body U L P) (py_range n)
       \<lparr>var_x = chain_start, var_chain = ch, var_accepted = 0, var_rng = rng\<rparr> = Inr v"
    and "0 \<le> n"
    by (auto simp: mh_locals_def np_zeros_def split: sum.splits if_splits)
  from for_loop_accepted[OF this(1)] this(2) show ?thesis
    by (simp add: py_range_def)
qed

theorem accepted_within_bounds_witness:
  "\<exists>v. mh_locals half_source () [1, 2] 1 wall_target stay = Inr v \<and>
       0 \<le> var_accepted v \<and> var_accepted v \<le> 1"
proof -
  have h: "mh_locals half_source () [1, 2] 1 wall_target stay =
      Inr \<lparr>var_x = [1, 2], var_chain = [ [1], [2] ], var_accepted = 1, var_rng = ()\<rparr>"
    by (simp add: run_defs)
  from accepted_within_bounds[OF h] h show ?thesis by simp
qed



section \<open>The claim about the estimators of pi\<close>

text \<open>
  Claim C10, as the code has it. The claim says that both cells compute
  \<open>4 * (number of pairs with x\<^sup>2 + y\<^sup>2 < 1) / n\<close>. The cells test and divide in
  float64. At the point \<open>(0.8474337369372327, 0.5309011786581351)\<close> of the unit square
  the exact sum of squares is below 1, so the formula gives 4 for \<open>n = 1\<close>, while the
  float64 sum of squares is exactly 1 and both cells return 0:
\<close>

theorem rounded_test_misses_inside_point:
  "pi_estimate rnd64 list_source [boundary_u, boundary_v] 1 = Inr (Fin 0) \<and>
   pi_est rnd64 list_source [boundary_u, boundary_v] 1 = Inr (Fin 0) \<and>
   0 \<le> boundary_u \<and> boundary_u < 1 \<and> 0 \<le> boundary_v \<and> boundary_v < 1 \<and>
   boundary_u * boundary_u + boundary_v * boundary_v < 1 \<and>
   4 * real (hits (zip [boundary_u] [boundary_v])) / real_of_int 1 = 4"
proof -
  have test: "\<not> rnd64 (rnd64 (boundary_u * boundary_u) + rnd64 (boundary_v * boundary_v)) < 1"
    unfolding rnd64_boundary_u_sq rnd64_boundary_v_sq rnd64_boundary_sum by simp
  have A: "pi_estimate rnd64 list_source [boundary_u, boundary_v] 1 = Inr (Fin 0)"
    using test
    by (simp add: pi_estimate_def uniform_size_def np_true_divide_def np_sum_def np_less_def
        np_add_def np_mul_def rnd64_0)
  have B: "pi_est rnd64 list_source [boundary_u, boundary_v] 1 = Inr (Fin 0)"
    using test
    by (simp add: pi_est_def pi_body_def py_range_def py_true_div_rnd_def rnd64_0)
  have C: "boundary_u * boundary_u + boundary_v * boundary_v < 1"
    by (simp add: boundary_u_def boundary_v_def)
  have D: "0 \<le> boundary_u \<and> boundary_u < 1 \<and> 0 \<le> boundary_v \<and> boundary_v < 1"
    by (simp add: boundary_u_def boundary_v_def)
  have E: "4 * real (hits (zip [boundary_u] [boundary_v])) / real_of_int 1 = 4"
    using C by (simp add: hits_def)
  from A B C D E show ?thesis by blast
qed

text \<open>
  Claim C10, amended. The vectorized cell and the cell with the \<open>for\<close> loop compute the
  same function of the points they sample, in float64: for every \<open>n > 0\<close> (the integers
  up to \<open>n\<close> being floats, as they are up to \<open>2\<^sup>5\<^sup>3\<close>), when the pairs
  \<open>(x\<^sub>i, y\<^sub>i)\<close> of the arrays drawn by the first are the pairs \<open>(u, v)\<close> drawn by
  the passes of the second, both return the rounded \<open>(count / n) * 4\<close>, where \<open>count\<close>
  is the number of pairs whose rounded sum of rounded squares is below 1; so the two
  estimates are equal. This holds for every rounding function.
\<close>

theorem pi_estimators_agree:
  assumes "0 < n"
    and "\<forall>k. 0 \<le> k \<and> k \<le> n \<longrightarrow> rnd (real_of_int k) = real_of_int k"
    and "draw U1 (nat n) s1 = (xs, s1')" "draw U1 (nat n) s1' = (ys, s1'')"
    and "pairs_drawn U2 (nat n) s2 = zip xs ys"
  shows "pi_estimate rnd U1 s1 n =
           Inr (Fin (rnd (rnd (real (hits_rnd rnd (zip xs ys)) / real_of_int n) * 4))) \<and>
         pi_est rnd U2 s2 n =
           Inr (Fin (rnd (rnd (real (hits_rnd rnd (zip xs ys)) / real_of_int n) * 4))) \<and>
         pi_estimate rnd U1 s1 n = pi_est rnd U2 s2 n"
  using pi_estimate_hits[OF assms(1,2,3,4)] pi_est_hits[OF assms(1), of rnd U2 s2] assms(5)
  by simp

theorem pi_estimators_agree_witness:
  "pi_estimate rnd64 list_source [1 / 10, 9 / 10, 2 / 10, 8 / 10] 2 =
     Inr (Fin (rnd64 (rnd64 (real (hits_rnd rnd64 (zip [1 / 10, 9 / 10] [2 / 10, 8 / 10])) /
       real_of_int 2) * 4))) \<and>
   pi_est rnd64 list_source [1 / 10, 2 / 10, 9 / 10, 8 / 10] 2 =
     Inr (Fin (rnd64 (rnd64 (real (hits_rnd rnd64 (zip [1 / 10, 9 / 10] [2 / 10, 8 / 10])) /
       real_of_int 2) * 4))) \<and>
   pi_estimate rnd64 list_source [1 / 10, 9 / 10, 2 / 10, 8 / 10] 2 =
     pi_est rnd64 list_source [1 / 10, 2 / 10, 9 / 10, 8 / 10] 2"
proof (rule pi_estimators_agree[where s1' = "[2 / 10, 8 / 10]" and s1'' = "[]"])
  show "\<forall>k. 0 \<le> k \<and> k \<le> 2 \<longrightarrow> rnd64 (real_of_int k) = real_of_int k"
  proof (intro allI impI)
    fix k :: int
    assume "0 \<le> k \<and> k \<le> 2"
    then have "k = 0 \<or> k = 1 \<or> k = 2" by auto
    then show "rnd64 (real_of_int k) = real_of_int k"
      using rnd64_0 rnd64_1 rnd64_2 by auto
  qed
qed (simp_all add: numeral_2_eq_2)

section \<open>Runs at the edge of the hypotheses\<close>

text \<open>
  A candidate generator that changes the number of elements to two, once its candidate is
  accepted, lets a run from a state of three elements go through; a log-density that is
  minus infinity everywhere gives a NaN ratio and no acceptance.
\<close>

lemma dimension_changing_candidate_example:
  "metropolis_hastings half_source () [1, 2, 3] 1 flat_target (jump_to [3, 4]) =
     Inr \<lparr>returned = [ [3], [4] ], printed = 100, rng_final = ()\<rparr>"
  by (simp add: run_defs)

lemma minus_infinity_everywhere_example:
  "metropolis_hastings half_source () [1, 2] 1 (\<lambda>x. NInf) (jump_to [3, 4]) =
     Inr \<lparr>returned = [ [1], [2] ], printed = 0, rng_final = ()\<rparr>"
  by (simp add: run_defs)


end
